theory Spec2Isabelle
  imports Complex_Main "HOL-Library.Word"
begin

unbundle bit_operations_syntax

text \<open>
  A shallow embedding of the two components of the BYOK SDK that carry behaviour: the
  decoder of server-sent events (\<open>parseSSEStream\<close> in streaming.ts) and the
  classification of HTTP errors (\<open>throwForStatus\<close> in errors.ts), together with the
  platform functions they call (\<open>TextDecoder\<close>, \<open>String.prototype\<close> methods,
  \<open>JSON.parse\<close>, \<open>parseInt\<close>), as far as these two functions use them.
\<close>

section \<open>Strings and bytes\<close>

text \<open>
  A JavaScript string is a sequence of UTF-16 code units; the bytes of a response body
  are octets. String literals of the source are written as Isabelle strings and
  converted code unit by code unit with \<open>js\<close> (all literals of the source are ASCII).
\<close>

type_synonym byte = "8 word"
type_synonym jsstring = "16 word list"

definition js :: "string \<Rightarrow> jsstring" where
  "js s = map of_char s"

definition ascii :: "string \<Rightarrow> byte list" where
  "ascii s = map of_char s"

definition LF :: "16 word" where
  "LF = 0x0A"

subsection \<open>String.prototype.split, trim, startsWith, slice\<close>

text \<open>
  \<open>s.split(sep)\<close> for a one-character separator: the result always has at least one
  element, the last one being the text after the last separator.
\<close>

fun split :: "'a \<Rightarrow> 'a list \<Rightarrow> 'a list list" where
  "split sep [] = [[]]"
| "split sep (c # cs) =
     (if c = sep then [] # split sep cs
      else (case split sep cs of [] \<Rightarrow> [[c]] | l # ls \<Rightarrow> (c # l) # ls))"

text \<open>
  The code points that \<open>trim()\<close> strips: ECMAScript WhiteSpace and LineTerminator
  (TAB, LF, VT, FF, CR, SP, NBSP, U+1680, U+2000..U+200A, U+2028, U+2029, U+202F,
  U+205F, U+3000 and U+FEFF), all of them single code units.
\<close>

definition is_js_space :: "16 word \<Rightarrow> bool" where
  "is_js_space c \<longleftrightarrow>
     (0x09 \<le> c \<and> c \<le> 0x0D) \<or> c = 0x20 \<or> c = 0xA0 \<or> c = 0x1680 \<or>
     (0x2000 \<le> c \<and> c \<le> 0x200A) \<or> c = 0x2028 \<or> c = 0x2029 \<or> c = 0x202F \<or>
     c = 0x205F \<or> c = 0x3000 \<or> c = 0xFEFF"

definition trim :: "jsstring \<Rightarrow> jsstring" where
  "trim s = rev (dropWhile is_js_space (rev (dropWhile is_js_space s)))"

definition startsWith :: "jsstring \<Rightarrow> jsstring \<Rightarrow> bool" where
  "startsWith s p \<longleftrightarrow> take (length p) s = p"

definition slice :: "jsstring \<Rightarrow> nat \<Rightarrow> jsstring" where
  "slice s n = drop n s"

section \<open>TextDecoder: streaming UTF-8 decoding\<close>

text \<open>
  \<open>new TextDecoder()\<close> is the UTF-8 decoder of the WHATWG Encoding standard, with
  replacement error mode and BOM removal. Called with \<open>{stream: true}\<close> it keeps its
  state between calls and is never flushed by \<open>parseSSEStream\<close>. The state is the
  standard's: code point, bytes seen, bytes needed, lower and upper boundary, and the
  "BOM seen" flag of the TextDecoder object.
\<close>

record utf8_state =
  code_point :: nat
  bytes_seen :: nat
  bytes_needed :: nat
  lower_boundary :: byte
  upper_boundary :: byte
  bom_seen :: bool

definition utf8_init :: utf8_state where
  "utf8_init = \<lparr>code_point = 0, bytes_seen = 0, bytes_needed = 0,
     lower_boundary = 0x80, upper_boundary = 0xBF, bom_seen = False\<rparr>"

definition utf8_reset :: "utf8_state \<Rightarrow> utf8_state" where
  "utf8_reset st = st\<lparr>code_point := 0, bytes_seen := 0, bytes_needed := 0,
     lower_boundary := 0x80, upper_boundary := 0xBF\<rparr>"

text \<open>The handler when no bytes are needed: a lead byte. The result is the new state
  and the code points emitted (U+FFFD for an error).\<close>

definition utf8_lead :: "utf8_state \<Rightarrow> byte \<Rightarrow> utf8_state \<times> nat list" where
  "utf8_lead st b =
     (if b \<le> 0x7F then (st, [unat b])
      else if 0xC2 \<le> b \<and> b \<le> 0xDF then
        (st\<lparr>bytes_needed := 1, code_point := unat (b AND 0x1F)\<rparr>, [])
      else if 0xE0 \<le> b \<and> b \<le> 0xEF then
        (st\<lparr>lower_boundary := (if b = 0xE0 then 0xA0 else lower_boundary st),
            upper_boundary := (if b = 0xED then 0x9F else upper_boundary st),
            bytes_needed := 2, code_point := unat (b AND 0x0F)\<rparr>, [])
      else if 0xF0 \<le> b \<and> b \<le> 0xF4 then
        (st\<lparr>lower_boundary := (if b = 0xF0 then 0x90 else lower_boundary st),
            upper_boundary := (if b = 0xF4 then 0x8F else upper_boundary st),
            bytes_needed := 3, code_point := unat (b AND 0x07)\<rparr>, [])
      else (st, [0xFFFD]))"

text \<open>One byte through the handler. A byte outside the boundaries resets the state,
  emits U+FFFD and is processed again as a lead byte ("restore byte to the queue").\<close>

definition utf8_handler :: "utf8_state \<Rightarrow> byte \<Rightarrow> utf8_state \<times> nat list" where
  "utf8_handler st b =
     (if bytes_needed st = 0 then utf8_lead st b
      else if \<not> (lower_boundary st \<le> b \<and> b \<le> upper_boundary st) then
        (let (st', out) = utf8_lead (utf8_reset st) b in (st', 0xFFFD # out))
      else
        (let cp = code_point st * 64 + unat (b AND 0x3F);
             seen = bytes_seen st + 1
         in if seen \<noteq> bytes_needed st then
              (st\<lparr>lower_boundary := 0x80, upper_boundary := 0xBF,
                  code_point := cp, bytes_seen := seen\<rparr>, [])
            else (utf8_reset st, [cp])))"

text \<open>Serialising the output: the first code point ever emitted is dropped when it is
  the byte order mark U+FEFF.\<close>

fun strip_bom :: "utf8_state \<Rightarrow> nat list \<Rightarrow> utf8_state \<times> nat list" where
  "strip_bom st [] = (st, [])"
| "strip_bom st (c # cs) =
     (if bom_seen st then (st, c # cs)
      else (st\<lparr>bom_seen := True\<rparr>, if c = 0xFEFF then cs else c # cs))"

text \<open>A code point as UTF-16 code units.\<close>

definition utf16 :: "nat \<Rightarrow> jsstring" where
  "utf16 cp =
     (if cp < 0x10000 then [of_nat cp]
      else [of_nat (0xD800 + (cp - 0x10000) div 0x400),
            of_nat (0xDC00 + (cp - 0x10000) mod 0x400)])"

definition decode_byte :: "utf8_state \<Rightarrow> byte \<Rightarrow> utf8_state \<times> jsstring" where
  "decode_byte st b =
     (let (st1, cps) = utf8_handler st b;
          (st2, cps') = strip_bom st1 cps
      in (st2, concat (map utf16 cps')))"

text \<open>\<open>decoder.decode(value, {stream: true})\<close>: the bytes of one read, from the state
  the previous call left.\<close>

fun decode :: "utf8_state \<Rightarrow> byte list \<Rightarrow> utf8_state \<times> jsstring" where
  "decode st [] = (st, [])"
| "decode st (b # bs) =
     (let (st1, s1) = decode_byte st b;
          (st2, s2) = decode st1 bs
      in (st2, s1 @ s2))"

section \<open>JSON values and JSON.parse\<close>

text \<open>
  The values \<open>JSON.parse\<close> returns. A number is kept as the exact decimal value of its
  literal, mantissa times ten to the exponent; the source only tests numbers for
  truthiness. An object keeps its members in source order; a later duplicate of a key
  overrides an earlier one when the property is read.
\<close>

datatype json =
    JNull
  | JBool bool
  | JNumber int int
  | JString jsstring
  | JArray "json list"
  | JObject "(jsstring \<times> json) list"

datatype token =
    TLBrace | TRBrace | TLBrack | TRBrack | TColon | TComma | TValue json

subsection \<open>Tokens\<close>

datatype num_phase = PMinus | PZero | PInt | PDot | PFrac | PE | PESign | PEDig

record num_acc =
  negative :: bool
  mantissa :: nat
  frac_digits :: nat
  exp_negative :: bool
  exp_value :: nat

definition num_acc0 :: num_acc where
  "num_acc0 = \<lparr>negative = False, mantissa = 0, frac_digits = 0,
     exp_negative = False, exp_value = 0\<rparr>"

definition num_value :: "num_acc \<Rightarrow> json" where
  "num_value a =
     JNumber (if negative a then - int (mantissa a) else int (mantissa a))
       ((if exp_negative a then - int (exp_value a) else int (exp_value a))
          - int (frac_digits a))"

datatype lmode =
    LStart
  | LLit jsstring json
  | LStr jsstring
  | LEsc jsstring
  | LHex jsstring nat nat
  | LNum num_phase num_acc

definition is_digit :: "16 word \<Rightarrow> bool" where
  "is_digit c \<longleftrightarrow> 0x30 \<le> c \<and> c \<le> 0x39"

definition digit_val :: "16 word \<Rightarrow> nat" where
  "digit_val c = unat c - 0x30"

definition hex_val :: "16 word \<Rightarrow> nat option" where
  "hex_val c =
     (if 0x30 \<le> c \<and> c \<le> 0x39 then Some (unat c - 0x30)
      else if 0x41 \<le> c \<and> c \<le> 0x46 then Some (unat c - 0x41 + 10)
      else if 0x61 \<le> c \<and> c \<le> 0x66 then Some (unat c - 0x61 + 10)
      else None)"

text \<open>A character where a token may start. JSON white space is TAB, LF, CR and SP.\<close>

definition lex_start :: "16 word \<Rightarrow> (lmode \<times> token list) option" where
  "lex_start c =
     (if c = 0x20 \<or> c = 0x09 \<or> c = 0x0A \<or> c = 0x0D then Some (LStart, [])
      else if c = 0x7B then Some (LStart, [TLBrace])
      else if c = 0x7D then Some (LStart, [TRBrace])
      else if c = 0x5B then Some (LStart, [TLBrack])
      else if c = 0x5D then Some (LStart, [TRBrack])
      else if c = 0x3A then Some (LStart, [TColon])
      else if c = 0x2C then Some (LStart, [TComma])
      else if c = 0x22 then Some (LStr [], [])
      else if c = 0x2D then Some (LNum PMinus (num_acc0\<lparr>negative := True\<rparr>), [])
      else if c = 0x30 then Some (LNum PZero num_acc0, [])
      else if is_digit c then Some (LNum PInt (num_acc0\<lparr>mantissa := digit_val c\<rparr>), [])
      else if c = 0x74 then Some (LLit (js ''rue'') (JBool True), [])
      else if c = 0x66 then Some (LLit (js ''alse'') (JBool False), [])
      else if c = 0x6E then Some (LLit (js ''ull'') JNull, [])
      else None)"

text \<open>The number literal is over: its token, then the character as a token start.\<close>

definition num_finish :: "num_acc \<Rightarrow> 16 word \<Rightarrow> (lmode \<times> token list) option" where
  "num_finish a c =
     (case lex_start c of None \<Rightarrow> None
      | Some (m, ts) \<Rightarrow> Some (m, TValue (num_value a) # ts))"

definition is_e :: "16 word \<Rightarrow> bool" where
  "is_e c \<longleftrightarrow> c = 0x65 \<or> c = 0x45"

fun lex_num :: "num_phase \<Rightarrow> num_acc \<Rightarrow> 16 word \<Rightarrow> (lmode \<times> token list) option" where
  "lex_num PMinus a c =
     (if c = 0x30 then Some (LNum PZero a, [])
      else if is_digit c then Some (LNum PInt (a\<lparr>mantissa := digit_val c\<rparr>), [])
      else None)"
| "lex_num PZero a c =
     (if c = 0x2E then Some (LNum PDot a, [])
      else if is_e c then Some (LNum PE a, [])
      else num_finish a c)"
| "lex_num PInt a c =
     (if is_digit c then Some (LNum PInt (a\<lparr>mantissa := mantissa a * 10 + digit_val c\<rparr>), [])
      else if c = 0x2E then Some (LNum PDot a, [])
      else if is_e c then Some (LNum PE a, [])
      else num_finish a c)"
| "lex_num PDot a c =
     (if is_digit c then
        Some (LNum PFrac (a\<lparr>mantissa := mantissa a * 10 + digit_val c,
                             frac_digits := frac_digits a + 1\<rparr>), [])
      else None)"
| "lex_num PFrac a c =
     (if is_digit c then
        Some (LNum PFrac (a\<lparr>mantissa := mantissa a * 10 + digit_val c,
                             frac_digits := frac_digits a + 1\<rparr>), [])
      else if is_e c then Some (LNum PE a, [])
      else num_finish a c)"
| "lex_num PE a c =
     (if c = 0x2B then Some (LNum PESign a, [])
      else if c = 0x2D then Some (LNum PESign (a\<lparr>exp_negative := True\<rparr>), [])
      else if is_digit c then Some (LNum PEDig (a\<lparr>exp_value := digit_val c\<rparr>), [])
      else None)"
| "lex_num PESign a c =
     (if is_digit c then Some (LNum PEDig (a\<lparr>exp_value := digit_val c\<rparr>), [])
      else None)"
| "lex_num PEDig a c =
     (if is_digit c then
        Some (LNum PEDig (a\<lparr>exp_value := exp_value a * 10 + digit_val c\<rparr>), [])
      else num_finish a c)"

definition lex_esc :: "jsstring \<Rightarrow> 16 word \<Rightarrow> (lmode \<times> token list) option" where
  "lex_esc acc c =
     (if c = 0x22 \<or> c = 0x5C \<or> c = 0x2F then Some (LStr (c # acc), [])
      else if c = 0x62 then Some (LStr (0x08 # acc), [])
      else if c = 0x66 then Some (LStr (0x0C # acc), [])
      else if c = 0x6E then Some (LStr (0x0A # acc), [])
      else if c = 0x72 then Some (LStr (0x0D # acc), [])
      else if c = 0x74 then Some (LStr (0x09 # acc), [])
      else if c = 0x75 then Some (LHex acc 0 0, [])
      else None)"

text \<open>One character of the text. Strings accumulate their code units in reverse.\<close>

fun lex_step :: "lmode \<Rightarrow> 16 word \<Rightarrow> (lmode \<times> token list) option" where
  "lex_step LStart c = lex_start c"
| "lex_step (LLit [] v) c = None"
| "lex_step (LLit (x # xs) v) c =
     (if c \<noteq> x then None
      else if xs = [] then Some (LStart, [TValue v])
      else Some (LLit xs v, []))"
| "lex_step (LStr acc) c =
     (if c = 0x22 then Some (LStart, [TValue (JString (rev acc))])
      else if c = 0x5C then Some (LEsc acc, [])
      else if c < 0x20 then None
      else Some (LStr (c # acc), []))"
| "lex_step (LEsc acc) c = lex_esc acc c"
| "lex_step (LHex acc n v) c =
     (case hex_val c of None \<Rightarrow> None
      | Some d \<Rightarrow>
          if n = 3 then Some (LStr (of_nat (v * 16 + d) # acc), [])
          else Some (LHex acc (n + 1) (v * 16 + d), []))"
| "lex_step (LNum ph a) c = lex_num ph a c"

text \<open>The end of the text: a number may end there, a string or a literal may not.\<close>

fun lex_end :: "lmode \<Rightarrow> token list option" where
  "lex_end LStart = Some []"
| "lex_end (LNum ph a) =
     (if ph = PZero \<or> ph = PInt \<or> ph = PFrac \<or> ph = PEDig
      then Some [TValue (num_value a)] else None)"
| "lex_end _ = None"

fun lex :: "lmode \<Rightarrow> jsstring \<Rightarrow> token list option" where
  "lex m [] = lex_end m"
| "lex m (c # cs) =
     (case lex_step m c of None \<Rightarrow> None
      | Some (m', ts) \<Rightarrow>
          (case lex m' cs of None \<Rightarrow> None | Some ts' \<Rightarrow> Some (ts @ ts')))"

subsection \<open>Grammar\<close>

text \<open>
  The JSON grammar as a pushdown automaton over the tokens: the stack holds the arrays
  and objects that are open, innermost first, with their elements in reverse.
\<close>

datatype frame =
    InArr "json list"
  | InObj "(jsstring \<times> json) list"
  | InMember "(jsstring \<times> json) list" jsstring

datatype pmode = PValue | PArrFirst | PObjFirst | PObjKey | PColon | PAfter | PDone json

fun complete :: "json \<Rightarrow> frame list \<Rightarrow> (pmode \<times> frame list) option" where
  "complete v [] = Some (PDone v, [])"
| "complete v (InArr xs # st) = Some (PAfter, InArr (v # xs) # st)"
| "complete v (InMember ms k # st) = Some (PAfter, InObj ((k, v) # ms) # st)"
| "complete v (InObj ms # st) = None"

fun begin_value :: "frame list \<Rightarrow> token \<Rightarrow> (pmode \<times> frame list) option" where
  "begin_value st (TValue v) = complete v st"
| "begin_value st TLBrack = Some (PArrFirst, InArr [] # st)"
| "begin_value st TLBrace = Some (PObjFirst, InObj [] # st)"
| "begin_value st _ = None"

fun begin_key :: "frame list \<Rightarrow> token \<Rightarrow> (pmode \<times> frame list) option" where
  "begin_key (InObj ms # st) (TValue (JString k)) = Some (PColon, InMember ms k # st)"
| "begin_key _ _ = None"

fun parse_step :: "pmode \<Rightarrow> frame list \<Rightarrow> token \<Rightarrow> (pmode \<times> frame list) option" where
  "parse_step PValue st t = begin_value st t"
| "parse_step PArrFirst (InArr xs # st) TRBrack = complete (JArray (rev xs)) st"
| "parse_step PArrFirst st t = begin_value st t"
| "parse_step PObjFirst (InObj ms # st) TRBrace = complete (JObject (rev ms)) st"
| "parse_step PObjFirst st t = begin_key st t"
| "parse_step PObjKey st t = begin_key st t"
| "parse_step PColon st TColon = Some (PValue, st)"
| "parse_step PAfter (InArr xs # st) TComma = Some (PValue, InArr xs # st)"
| "parse_step PAfter (InArr xs # st) TRBrack = complete (JArray (rev xs)) st"
| "parse_step PAfter (InObj ms # st) TComma = Some (PObjKey, InObj ms # st)"
| "parse_step PAfter (InObj ms # st) TRBrace = complete (JObject (rev ms)) st"
| "parse_step _ _ _ = None"

fun parse_tokens :: "pmode \<Rightarrow> frame list \<Rightarrow> token list \<Rightarrow> json option" where
  "parse_tokens (PDone v) st [] = Some v"
| "parse_tokens m st [] = None"
| "parse_tokens m st (t # ts) =
     (case parse_step m st t of None \<Rightarrow> None
      | Some (m', st') \<Rightarrow> parse_tokens m' st' ts)"

text \<open>\<open>JSON.parse(text)\<close>: \<open>None\<close> is the SyntaxError it throws. The limits of an
  engine (the nesting depth it can parse) are not part of the model.\<close>

definition JSON_parse :: "jsstring \<Rightarrow> json option" where
  "JSON_parse s =
     (case lex LStart s of None \<Rightarrow> None | Some ts \<Rightarrow> parse_tokens PValue [] ts)"

section \<open>Property access and truthiness\<close>

text \<open>
  \<open>undefined\<close> is \<open>None\<close>; \<open>null\<close> is \<open>Some JNull\<close>. \<open>member v k\<close> is \<open>v.k\<close> for a value
  \<open>v\<close> that is neither \<open>null\<close> nor \<open>undefined\<close> and for the property names the source
  reads (\<open>choices\<close>, \<open>delta\<close>, \<open>content\<close>, \<open>finish_reason\<close>, \<open>error\<close>, \<open>message\<close>,
  \<open>code\<close>, \<open>type\<close>, \<open>details\<close>): only an object can have them. \<open>index0 v\<close> is \<open>v[0]\<close>:
  the property \<open>"0"\<close> of an object, the first element of an array, the first code unit
  of a string.
\<close>

definition member :: "string \<Rightarrow> json \<Rightarrow> json option" where
  "member k v = (case v of JObject ms \<Rightarrow> map_of (rev ms) (js k) | _ \<Rightarrow> None)"

fun index0 :: "json \<Rightarrow> json option" where
  "index0 (JObject ms) = map_of (rev ms) (js ''0'')"
| "index0 (JArray xs) = (case xs of [] \<Rightarrow> None | x # _ \<Rightarrow> Some x)"
| "index0 (JString s) = (case s of [] \<Rightarrow> None | c # _ \<Rightarrow> Some (JString [c]))"
| "index0 _ = None"

text \<open>Optional chaining \<open>v?.k\<close>: \<open>undefined\<close> when \<open>v\<close> is \<open>null\<close> or \<open>undefined\<close>.\<close>

fun opt :: "json option \<Rightarrow> (json \<Rightarrow> json option) \<Rightarrow> json option" where
  "opt None f = None"
| "opt (Some JNull) f = None"
| "opt (Some v) f = f v"

text \<open>
  ToBoolean. A number literal is falsy when the double it denotes is zero: a zero
  mantissa, or a value that rounds to zero (at most \<open>2 ^ -1075\<close> in magnitude).
\<close>

fun truthy :: "json \<Rightarrow> bool" where
  "truthy JNull = False"
| "truthy (JBool b) = b"
| "truthy (JNumber m e) = (m \<noteq> 0 \<and> (0 \<le> e \<or> 10 ^ nat (- e) < \<bar>m\<bar> * 2 ^ 1075))"
| "truthy (JString s) = (s \<noteq> [])"
| "truthy (JArray xs) = True"
| "truthy (JObject ms) = True"

definition truthy_opt :: "json option \<Rightarrow> bool" where
  "truthy_opt v = (case v of None \<Rightarrow> False | Some x \<Rightarrow> truthy x)"

section \<open>The SSE stream decoder (streaming.ts)\<close>

text \<open>
  A chunk as it exists at run time: \<open>content\<close> is whatever value \<open>delta.content\<close> held
  (the declared type is string, the code does not check it).
\<close>

record ChatStreamChunk =
  content :: json
  done_flag :: bool

definition terminal :: ChatStreamChunk where
  "terminal = \<lparr>content = JString [], done_flag = True\<rparr>"

text \<open>
  Lines 37 to 57: the payload of a \<open>data: \<close> line. The result is the chunks yielded and
  whether the generator returned. A payload that \<open>JSON.parse\<close> rejects is skipped by the
  empty \<open>catch\<close>.
\<close>

definition choice0 :: "json \<Rightarrow> json option" where
  "choice0 parsed = opt (opt (Some parsed) (member ''choices'')) index0"

definition process_data :: "jsstring \<Rightarrow> ChatStreamChunk list \<times> bool" where
  "process_data data =
     (if data = js ''[DONE]'' then ([terminal], True)
      else
        (case JSON_parse data of
           None \<Rightarrow> ([], False)
         | Some parsed \<Rightarrow>
            (let delta = opt (choice0 parsed) (member ''delta'');
                 delta_content = opt delta (member ''content'');
                 cs = (case delta_content of
                         None \<Rightarrow> []
                       | Some c \<Rightarrow>
                           if truthy c then [\<lparr>content = c, done_flag = False\<rparr>] else [])
             in if truthy_opt (opt (choice0 parsed) (member ''finish_reason''))
                then (cs @ [terminal], True)
                else (cs, False))))"

text \<open>Lines 33 to 58: one complete line.\<close>

definition process_line :: "jsstring \<Rightarrow> ChatStreamChunk list \<times> bool" where
  "process_line line =
     (let trimmed = trim line
      in if trimmed = [] then ([], False)
         else if startsWith trimmed (js ''data: '') then process_data (slice trimmed 6)
         else ([], False))"

text \<open>Lines 32 to 59: the \<open>for\<close> loop over the complete lines of one read.\<close>

fun process_lines :: "jsstring list \<Rightarrow> ChatStreamChunk list \<times> bool" where
  "process_lines [] = ([], False)"
| "process_lines (l # ls) =
     (let (cs, ret) = process_line l
      in if ret then (cs, True)
         else (let (cs', ret') = process_lines ls in (cs @ cs', ret')))"

text \<open>Lines 62 to 68: the text left in the buffer at the end of the data.\<close>

definition remaining :: "jsstring \<Rightarrow> ChatStreamChunk list" where
  "remaining buffer =
     (if startsWith (trim buffer) (js ''data: '') then
        (if slice (trim buffer) 6 = js ''[DONE]'' then [terminal] else [])
      else [])"

subsection \<open>The reader and the generator\<close>

text \<open>
  The body of a response is the script of what \<open>reader.read()\<close> will deliver: each read
  resolves with a chunk of bytes or rejects with an error; the end of the list is
  \<open>{done: true}\<close>. A run of the generator is the trace of what it does to the reader and
  what it yields, and how it ends.
\<close>

datatype exn = Exn jsstring

datatype read_result = Data "byte list" | Fail exn

datatype event = GetReader | Read | Yield ChatStreamChunk | ReleaseLock

datatype outcome = Returned | Threw exn

text \<open>Lines 23 to 68, the \<open>try\<close> block: the read loop, then the remaining buffer.\<close>

fun read_loop :: "utf8_state \<Rightarrow> jsstring \<Rightarrow> read_result list \<Rightarrow> event list \<times> outcome" where
  "read_loop d buffer [] = (Read # map Yield (remaining buffer), Returned)"
| "read_loop d buffer (Fail e # rs) = ([Read], Threw e)"
| "read_loop d buffer (Data v # rs) =
     (let (d', s) = decode d v;
          buffer1 = buffer @ s;
          lines = split LF buffer1;
          buffer2 = (if lines = [] then [] else last lines);
          (cs, ret) = process_lines (butlast lines)
      in if ret then (Read # map Yield cs, Returned)
         else (let (evs, out) = read_loop d' buffer2 rs
               in (Read # map Yield cs @ evs, out)))"

text \<open>
  The consumer of the generator either iterates to the end or, having received \<open>n\<close>
  chunks, calls \<open>return()\<close> (what leaving a \<open>for await\<close> loop does). \<open>suspend n evs\<close> is
  the part of the trace that has happened when the generator is suspended at its
  \<open>n\<close>-th \<open>yield\<close> (for \<open>n\<close> at least 1), if it gets that far.
\<close>

datatype consumer = Exhaust | AbandonAfter nat

fun suspend :: "nat \<Rightarrow> event list \<Rightarrow> event list option" where
  "suspend n [] = None"
| "suspend n (Yield c # evs) =
     (if n \<le> 1 then Some [Yield c]
      else (case suspend (n - 1) evs of None \<Rightarrow> None | Some pre \<Rightarrow> Some (Yield c # pre)))"
| "suspend n (e # evs) =
     (case suspend n evs of None \<Rightarrow> None | Some pre \<Rightarrow> Some (e # pre))"

text \<open>
  \<open>try { block } finally { fin }\<close> in a generator: the finaliser runs when the block
  completes, when it throws (the error propagates after it), and when the consumer
  calls \<open>return()\<close> while the block is suspended at a \<open>yield\<close>.
\<close>

definition try_finally ::
  "event list \<times> outcome \<Rightarrow> consumer \<Rightarrow> event list \<Rightarrow> event list \<times> outcome" where
  "try_finally block c fin =
     (case c of
        Exhaust \<Rightarrow> (fst block @ fin, snd block)
      | AbandonAfter n \<Rightarrow>
          (case suspend n (fst block) of
             None \<Rightarrow> (fst block @ fin, snd block)
           | Some pre \<Rightarrow> (pre @ fin, Returned)))"

record Response =
  status :: nat
  statusText :: jsstring
  retry_after :: "jsstring option"
  body :: "read_result list option"

text \<open>
  \<open>parseSSEStream(response)\<close> driven by a consumer. A consumer that calls \<open>return()\<close>
  before the first \<open>next()\<close> never starts the generator body. The body of the response
  is taken to be unlocked, so that \<open>getReader()\<close> succeeds.
\<close>

definition parseSSEStream :: "Response \<Rightarrow> consumer \<Rightarrow> event list \<times> outcome" where
  "parseSSEStream response c =
     (if c = AbandonAfter 0 then ([], Returned)
      else
        (case body response of
           None \<Rightarrow> ([], Returned)
         | Some rs \<Rightarrow>
            (let (evs, out) = try_finally (read_loop utf8_init [] rs) c [ReleaseLock]
             in (GetReader # evs, out))))"

fun yields :: "event list \<Rightarrow> ChatStreamChunk list" where
  "yields [] = []"
| "yields (Yield c # evs) = c # yields evs"
| "yields (e # evs) = yields evs"

text \<open>A response whose body delivers the given reads and then ends, and the chunks a
  consumer that iterates to the end receives from it.\<close>

definition sse_response :: "byte list list \<Rightarrow> Response" where
  "sse_response reads =
     \<lparr>status = 200, statusText = js ''OK'', retry_after = None,
      body = Some (map Data reads)\<rparr>"

definition chunks :: "byte list list \<Rightarrow> ChatStreamChunk list" where
  "chunks reads = yields (fst (parseSSEStream (sse_response reads) Exhaust))"

definition completion :: "byte list list \<Rightarrow> outcome" where
  "completion reads = snd (parseSSEStream (sse_response reads) Exhaust)"

section \<open>HTTP error classification (errors.ts)\<close>












subsection \<open>What the function reads\<close>









subsection \<open>throwForStatus\<close>





section \<open>The chunks as a function of the text\<close>

text \<open>The text the decoder has produced once every read has been decoded.\<close>

definition stream_text :: "byte list list \<Rightarrow> jsstring" where
  "stream_text reads = snd (decode utf8_init (concat reads))"

text \<open>
  What the read loop computes, said of the whole text at once: the complete lines in
  order up to the first one that returns, then the unterminated rest. This is the
  reference the read loop is compared with, not a translation of the source.
\<close>

definition frames :: "jsstring \<Rightarrow> ChatStreamChunk list" where
  "frames t =
     (let lines = split LF t;
          (cs, ret) = process_lines (butlast lines)
      in if ret then cs else cs @ remaining (last lines))"

section \<open>The shape of a chunk sequence\<close>

text \<open>A content chunk: not the last one, with a truthy content.\<close>

definition live :: "ChatStreamChunk \<Rightarrow> bool" where
  "live c \<longleftrightarrow> \<not> done_flag c \<and> truthy (content c)"

text \<open>Content chunks, then at most one terminal chunk.\<close>

definition shaped :: "ChatStreamChunk list \<Rightarrow> bool" where
  "shaped cs \<longleftrightarrow> (\<exists>pre. (cs = pre \<or> cs = pre @ [terminal]) \<and> (\<forall>c\<in>set pre. live c))"

fun is_string :: "json \<Rightarrow> bool" where
  "is_string (JString s) = True"
| "is_string _ = False"

section \<open>Example inputs\<close>





text \<open>
  One data line with the content \<open>e-acute\<close> (the bytes C3 A9), delivered in one read, and
  the same bytes delivered in three reads, cut inside the line and inside the code
  point.
\<close>

definition accent_line :: "byte list" where
  "accent_line =
     ascii ''data: {\"choices\":[{\"delta\":{\"content\":\"'' @ [0xC3, 0xA9] @
     ascii ''\"}}]}'' @ [0x0A]"

definition accent_reads :: "byte list list" where
  "accent_reads =
     [ascii ''data: {\"choi'',
      ascii ''ces\":[{\"delta\":{\"content\":\"'' @ [0xC3],
      [0xA9] @ ascii ''\"}}]}'' @ [0x0A]]"


text \<open>The lines \<open>data: {"choices":[{"delta":{"content":"Hi"}}]}\<close> and
  \<open>data: {"choices":[{"delta":{"content":"!"},"finish_reason":"stop"}]}\<close>, and the
  chunk of the first.\<close>

definition hi_line :: string where
  "hi_line = ''data: {\"choices\":[{\"delta\":{\"content\":\"Hi\"}}]}''"

definition stop_line :: string where
  "stop_line = ''data: {\"choices\":[{\"delta\":{\"content\":\"!\"},\"finish_reason\":\"stop\"}]}''"

definition hi_chunk :: ChatStreamChunk where
  "hi_chunk = \<lparr>content = JString (js ''Hi''), done_flag = False\<rparr>"

text \<open>The "Hi" line, a line that is not JSON, then the sentinel; and the same stream
  without the line that is not JSON.\<close>

definition malformed_reads :: "byte list list" where
  "malformed_reads =
     [ascii hi_line @ [0x0A] @ ascii ''data: {oops'' @ [0x0A], ascii ''data: [DONE]'' @ [0x0A]]"

definition clean_reads :: "byte list list" where
  "clean_reads = [ascii hi_line @ [0x0A], ascii ''data: [DONE]'' @ [0x0A]]"

text \<open>The "Hi" line, then the sentinel with no newline after it.\<close>

definition dangling_done_reads :: "byte list list" where
  "dangling_done_reads = [ascii hi_line @ [0x0A], ascii ''data: [DONE]'']"

text \<open>The "Hi" line, the line with a finish reason, then the sentinel.\<close>

definition stop_then_done_reads :: "byte list list" where
  "stop_then_done_reads =
     [ascii hi_line @ [0x0A], ascii stop_line @ [0x0A, 0x0A] @ ascii ''data: [DONE]'' @ [0x0A, 0x0A]]"

text \<open>A line whose \<open>delta.content\<close> is the number 5.\<close>

definition numeric_reads :: "byte list list" where
  "numeric_reads = [ascii ''data: {\"choices\":[{\"delta\":{\"content\":5}}]}'' @ [0x0A]]"

section \<open>Evaluating the definitions\<close>

lemmas text_defs = js_def ascii_def LF_def trim_def is_js_space_def startsWith_def slice_def

lemmas utf8_defs = utf8_init_def utf8_reset_def utf8_lead_def utf8_handler_def utf16_def
  decode_byte_def

lemmas json_defs = JSON_parse_def lex_start_def num_finish_def is_e_def is_digit_def
  digit_val_def hex_val_def lex_esc_def num_acc0_def num_value_def

lemmas sse_defs = member_def choice0_def truthy_opt_def process_data_def process_line_def
  remaining_def terminal_def try_finally_def parseSSEStream_def sse_response_def chunks_def
  completion_def



lemmas example_defs = hi_line_def stop_line_def hi_chunk_def malformed_reads_def clean_reads_def
  dangling_done_reads_def stop_then_done_reads_def numeric_reads_def

lemmas eval_defs = text_defs utf8_defs json_defs sse_defs stream_text_def example_defs

section \<open>The error thrown for a status\<close>



section \<open>The retry-after hint\<close>














section \<open>The fields read from the error body\<close>








section \<open>The read loop and the text\<close>

lemma split_nonempty [simp]: "split sep xs \<noteq> []"
  by (induction xs) (auto split: list.splits)

lemma split_no_sep: "sep \<notin> set xs \<Longrightarrow> split sep xs = [xs]"
  by (induction xs) auto

lemma split_append:
  "split sep (xs @ ys) = butlast (split sep xs) @ split sep (last (split sep xs) @ ys)"
proof (induction xs)
  case Nil
  then show ?case by simp
next
  case (Cons c cs)
  obtain l ls where s: "split sep cs = l # ls"
    by (cases "split sep cs") auto
  show ?case
  proof (cases "c = sep")
    case True
    with Cons s show ?thesis by simp
  next
    case False
    show ?thesis
    proof (cases ls)
      case Nil
      with Cons s False show ?thesis by simp
    next
      case (Cons a as)
      with Cons.IH s False show ?thesis by simp
    qed
  qed
qed

lemma last_split_no_sep: "sep \<notin> set (last (split sep xs))"
  by (induction xs) (auto split: list.splits)

lemma split_line: "sep \<notin> set l \<Longrightarrow> split sep (l @ sep # xs) = l # split sep xs"
  by (induction l) auto

lemma last_split_end:
  assumes "xs = [] \<or> last xs = sep"
  shows "last (split sep xs) = []"
proof (cases xs rule: rev_cases)
  case Nil
  then show ?thesis by simp
next
  case (snoc ys y)
  with assms have y: "y = sep" by simp
  have "split sep (ys @ [sep]) =
      butlast (split sep ys) @ split sep (last (split sep ys) @ [sep])"
    by (rule split_append)
  also have "split sep (last (split sep ys) @ [sep]) = [last (split sep ys), []]"
    using split_line [OF last_split_no_sep, of sep ys "[]"] by simp
  finally show ?thesis using snoc y by simp
qed

lemma decode_append:
  "decode st (xs @ ys) =
     (let (st1, s1) = decode st xs; (st2, s2) = decode st1 ys in (st2, s1 @ s2))"
  by (induction xs arbitrary: st) (auto split: prod.splits)

lemma process_lines_append:
  "process_lines (xs @ ys) =
     (let (cs, ret) = process_lines xs
      in if ret then (cs, True)
         else (let (cs', ret') = process_lines ys in (cs @ cs', ret')))"
  by (induction xs) (auto split: prod.splits)

lemma process_lines_True: "process_lines xs = (cs, ret) \<Longrightarrow> ret \<Longrightarrow> process_lines xs = (cs, True)"
  by simp

lemma yields_append [simp]: "yields (xs @ ys) = yields xs @ yields ys"
  by (induction xs rule: yields.induct) auto

lemma yields_map_Yield [simp]: "yields (map Yield cs) = cs"
  by (induction cs) auto

lemma read_loop_data:
  "LF \<notin> set buffer \<Longrightarrow>
   yields (fst (read_loop d buffer (map Data reads))) =
     frames (buffer @ snd (decode d (concat reads))) \<and>
   snd (read_loop d buffer (map Data reads)) = Returned"
proof (induction reads arbitrary: d buffer)
  case Nil
  then show ?case
    by (simp add: frames_def split_no_sep)
next
  case (Cons v reads)
  obtain d' s where dv: "decode d v = (d', s)" by (cases "decode d v") auto
  obtain d2 s2 where dr: "decode d' (concat reads) = (d2, s2)"
    by (cases "decode d' (concat reads)") auto
  let ?lines = "split LF (buffer @ s)"
  obtain cs ret where pl: "process_lines (butlast ?lines) = (cs, ret)"
    by (cases "process_lines (butlast ?lines)") auto
  have dtext: "snd (decode d (v @ concat reads)) = s @ s2"
    by (simp add: decode_append dv dr)
  have sp: "split LF (buffer @ s @ s2) = butlast ?lines @ split LF (last ?lines @ s2)"
    using split_append [of LF "buffer @ s" s2] by simp
  have bl: "butlast (split LF (buffer @ s @ s2)) =
      butlast ?lines @ butlast (split LF (last ?lines @ s2))"
    by (simp add: sp butlast_append)
  have la: "last (split LF (buffer @ s @ s2)) = last (split LF (last ?lines @ s2))"
    by (simp add: sp)
  have nolf: "LF \<notin> set (last ?lines)" by (rule last_split_no_sep)
  have IH: "yields (fst (read_loop d' (last ?lines) (map Data reads))) =
      frames (last ?lines @ snd (decode d' (concat reads))) \<and>
    snd (read_loop d' (last ?lines) (map Data reads)) = Returned"
    by (rule Cons.IH [OF nolf])
  show ?case
  proof (cases ret)
    case True
    then show ?thesis
      using pl by (simp add: dv dtext frames_def bl process_lines_append Let_def)
  next
    case False
    obtain evs out where rl: "read_loop d' (last ?lines) (map Data reads) = (evs, out)"
      by (cases "read_loop d' (last ?lines) (map Data reads)") auto
    obtain cs2 ret2 where
      p2: "process_lines (butlast (split LF (last ?lines @ s2))) = (cs2, ret2)"
      by (cases "process_lines (butlast (split LF (last ?lines @ s2)))") auto
    have ev: "yields evs = frames (last ?lines @ s2)" and out: "out = Returned"
      using IH by (simp_all add: rl dr)
    have fr: "frames (buffer @ s @ s2) = cs @ frames (last ?lines @ s2)"
      using pl False p2
      by (simp add: frames_def bl la process_lines_append Let_def)
    have lhs: "read_loop d buffer (map Data (v # reads)) = (Read # map Yield cs @ evs, out)"
      using pl False by (simp add: dv rl Let_def)
    show ?thesis
      by (simp only: lhs fst_conv snd_conv concat.simps dtext append_assoc fr out)
         (simp add: ev)
  qed
qed

lemma chunks_frames: "chunks reads = frames (stream_text reads)"
  using read_loop_data [of "[]" utf8_init reads]
  by (simp add: chunks_def parseSSEStream_def sse_response_def try_finally_def stream_text_def
      split: prod.splits)

lemma completion_Returned: "completion reads = Returned"
  using read_loop_data [of "[]" utf8_init reads]
  by (simp add: completion_def parseSSEStream_def sse_response_def try_finally_def
      split: prod.splits)

text \<open>
  C1. Two segmentations of the same bytes into reads give the same chunks (and the
  same completion), wherever the cuts fall: inside a line, or inside a UTF-8 code
  point. This holds for every byte sequence, well-formed or not.
\<close>

theorem chunks_split_invariant:
  "concat reads1 = concat reads2 \<Longrightarrow>
   chunks reads1 = chunks reads2 \<and> completion reads1 = completion reads2"
  by (simp add: chunks_frames stream_text_def completion_Returned)

text \<open>One read against three reads cut inside the line and inside \<open>e-acute\<close>.\<close>

theorem chunks_split_invariant_witness:
  "concat [accent_line] = concat accent_reads \<and>
   chunks accent_reads = chunks [accent_line] \<and>
   chunks [accent_line] = [\<lparr>content = JString [0xE9], done_flag = False\<rparr>]"
proof -
  have c: "concat [accent_line] = concat accent_reads"
    by (simp add: accent_line_def accent_reads_def ascii_def)
  have v: "chunks [accent_line] = [\<lparr>content = JString [0xE9], done_flag = False\<rparr>]"
    by (simp add: accent_line_def text_defs utf8_defs json_defs sse_defs)
  from chunks_split_invariant [OF c] v show ?thesis using c by simp
qed

section \<open>Lines and frames\<close>

lemma process_data_shape:
  "process_data data = (cs, ret) \<Longrightarrow>
   (if ret then \<exists>pre. cs = pre @ [terminal] \<and> (\<forall>c\<in>set pre. live c)
    else \<forall>c\<in>set cs. live c)"
  by (auto simp: process_data_def Let_def live_def split: if_splits option.splits)

lemma process_line_shape:
  "process_line l = (cs, ret) \<Longrightarrow>
   (if ret then \<exists>pre. cs = pre @ [terminal] \<and> (\<forall>c\<in>set pre. live c)
    else \<forall>c\<in>set cs. live c)"
  using process_data_shape [of "slice (trim l) 6" cs ret]
  by (auto simp: process_line_def Let_def split: if_splits)

lemma process_lines_shape:
  "process_lines ls = (cs, ret) \<Longrightarrow>
   (if ret then \<exists>pre. cs = pre @ [terminal] \<and> (\<forall>c\<in>set pre. live c)
    else \<forall>c\<in>set cs. live c)"
proof (induction ls arbitrary: cs ret)
  case Nil
  then show ?case by auto
next
  case (Cons l ls)
  obtain c1 r1 where l: "process_line l = (c1, r1)" by (cases "process_line l") auto
  obtain c2 r2 where ls: "process_lines ls = (c2, r2)" by (cases "process_lines ls") auto
  note s1 = process_line_shape [OF l]
  note s2 = Cons.IH [OF ls]
  show ?case
  proof (cases r1)
    case True
    with Cons.prems l s1 show ?thesis by auto
  next
    case False
    with Cons.prems l ls have cs: "cs = c1 @ c2" and r: "ret = r2" by auto
    show ?thesis
    proof (cases r2)
      case True
      with s2 obtain pre where "c2 = pre @ [terminal]" "\<forall>c\<in>set pre. live c" by auto
      with s1 False have "cs = (c1 @ pre) @ [terminal] \<and> (\<forall>c\<in>set (c1 @ pre). live c)"
        by (auto simp: cs)
      with True r show ?thesis by metis
    next
      case False
      with s1 s2 \<open>\<not> r1\<close> show ?thesis by (auto simp: cs r)
    qed
  qed
qed

lemma remaining_cases: "remaining b = [] \<or> remaining b = [terminal]"
  by (simp add: remaining_def)

lemma frames_shape:
  "\<exists>pre. (frames t = pre \<or> frames t = pre @ [terminal]) \<and> (\<forall>c\<in>set pre. live c)"
proof -
  obtain cs ret where p: "process_lines (butlast (split LF t)) = (cs, ret)"
    by (cases "process_lines (butlast (split LF t))") auto
  note s = process_lines_shape [OF p]
  show ?thesis
  proof (cases ret)
    case True
    with s p show ?thesis by (auto simp: frames_def Let_def)
  next
    case False
    with s p remaining_cases [of "last (split LF t)"] show ?thesis
      by (auto simp: frames_def Let_def)
  qed
qed

lemma frames_prefix:
  assumes "a = [] \<or> last a = LF"
  shows "frames (a @ x) =
    (let (cs, ret) = process_lines (butlast (split LF a))
     in if ret then cs else cs @ frames x)"
proof -
  have l: "last (split LF a) = []" using assms by (rule last_split_end)
  have sp: "split LF (a @ x) = butlast (split LF a) @ split LF x"
    using split_append [of LF a x] by (simp add: l)
  have bl: "butlast (split LF (a @ x)) = butlast (split LF a) @ butlast (split LF x)"
    by (simp add: sp butlast_append)
  have la: "last (split LF (a @ x)) = last (split LF x)"
    by (simp add: sp)
  show ?thesis
    by (simp add: frames_def bl la process_lines_append Let_def split: prod.splits)
qed

lemma frames_line:
  assumes "LF \<notin> set l"
  shows "frames (l @ LF # x) =
    (let (cs, ret) = process_line l in if ret then cs else cs @ frames x)"
proof -
  have sp: "split LF (l @ LF # x) = l # split LF x"
    using assms by (rule split_line)
  show ?thesis
    by (simp add: frames_def sp Let_def split: prod.splits)
qed

lemma frames_rest:
  assumes "LF \<notin> set l"
  shows "frames l = remaining l"
  using assms by (simp add: frames_def split_no_sep)

lemma js_data_prefix_length: "length (js ''data: '') = 6"
  by (simp add: js_def)

lemma JSON_parse_DONE: "JSON_parse (js ''[DONE]'') = None"
  by (simp add: text_defs json_defs)

lemma process_line_data:
  "trim l = js ''data: '' @ payload \<Longrightarrow> process_line l = process_data payload"
  by (simp add: process_line_def Let_def startsWith_def slice_def js_data_prefix_length)
     (simp add: js_def)

lemma process_line_malformed:
  assumes "trim l = js ''data: '' @ payload" "payload \<noteq> js ''[DONE]''" "JSON_parse payload = None"
  shows "process_line l = ([], False)"
  using assms by (simp add: process_line_data process_data_def)

lemma live_not_done: "live c \<Longrightarrow> \<not> done_flag c"
  by (simp add: live_def)

lemma terminal_done: "done_flag terminal"
  by (simp add: terminal_def)

lemma hi_line_chunks: "process_lines (butlast (split LF (js hi_line @ [LF]))) = ([hi_chunk], False)"
  by (simp add: eval_defs)

section \<open>Malformed data lines\<close>

text \<open>
  C7. A complete \<open>data: \<close> line whose payload is not the sentinel and is rejected by
  \<open>JSON.parse\<close> yields no chunk and raises no error, and the chunks of the stream are
  those of the stream without that line: the lines after it are processed as they
  would be without it. (The sentinel \<open>[DONE]\<close> is never handed to \<open>JSON.parse\<close>.)
\<close>

theorem malformed_line_skipped:
  assumes "stream_text reads = a @ l @ LF # x"
    and "stream_text reads' = a @ x"
    and "a = [] \<or> last a = LF" and "LF \<notin> set l"
    and "trim l = js ''data: '' @ payload" and "payload \<noteq> js ''[DONE]''"
    and "JSON_parse payload = None"
  shows "process_line l = ([], False) \<and> chunks reads = chunks reads' \<and>
    completion reads = Returned"
proof -
  have pl: "process_line l = ([], False)"
    using assms(5-7) by (rule process_line_malformed)
  have "frames (l @ LF # x) = frames x"
    using frames_line [OF assms(4), of x] by (simp add: pl)
  then have "frames (a @ l @ LF # x) = frames (a @ x)"
    by (simp add: frames_prefix [OF assms(3)] split: prod.splits)
  then show ?thesis
    by (simp add: pl chunks_frames assms(1,2) completion_Returned)
qed

text \<open>The stream with the line \<open>data: {oops\<close> against the stream without it.\<close>

theorem malformed_line_skipped_witness:
  "JSON_parse (js ''{oops'') = None \<and>
   chunks malformed_reads = chunks clean_reads \<and>
   chunks clean_reads = [hi_chunk, terminal] \<and>
   completion malformed_reads = Returned"
proof -
  have 1: "stream_text malformed_reads =
      (js hi_line @ [LF]) @ js ''data: {oops'' @ LF # (js ''data: [DONE]'' @ [LF])"
    by (simp add: eval_defs)
  have 2: "stream_text clean_reads = (js hi_line @ [LF]) @ (js ''data: [DONE]'' @ [LF])"
    by (simp add: eval_defs)
  have 3: "js hi_line @ [LF] = [] \<or> last (js hi_line @ [LF]) = LF" by simp
  have 4: "LF \<notin> set (js ''data: {oops'')" by (simp add: eval_defs)
  have 5: "trim (js ''data: {oops'') = js ''data: '' @ js ''{oops''" by (simp add: eval_defs)
  have 6: "js ''{oops'' \<noteq> js ''[DONE]''" by (simp add: eval_defs)
  have 7: "JSON_parse (js ''{oops'') = None" by (simp add: eval_defs)
  have v: "chunks clean_reads = [hi_chunk, terminal]" by (simp add: eval_defs)
  from malformed_line_skipped [OF 1 2 3 4 5 6 7] 7 v show ?thesis by simp
qed

section \<open>Content and finish reason on one line\<close>

lemma process_line_content_finish:
  assumes "trim l = js ''data: '' @ payload" and "JSON_parse payload = Some parsed"
    and "opt (opt (choice0 parsed) (member ''delta'')) (member ''content'') = Some (JString s)"
    and "s \<noteq> []"
    and "truthy_opt (opt (choice0 parsed) (member ''finish_reason''))"
  shows "process_line l = ([\<lparr>content = JString s, done_flag = False\<rparr>, terminal], True)"
proof -
  have "payload \<noteq> js ''[DONE]''" using assms(2) JSON_parse_DONE by auto
  then show ?thesis
    using assms by (simp add: process_line_data process_data_def Let_def)
qed

text \<open>
  C6. A complete data line that the decoder reaches, whose JSON payload carries a
  non-empty string at \<open>choices[0].delta.content\<close> and a truthy
  \<open>choices[0].finish_reason\<close>, yields exactly two chunks, the content chunk and then
  the terminal chunk, and the sequence ends there whatever follows in the stream.
\<close>

theorem content_and_finish_reason:
  assumes "stream_text reads = a @ l @ LF # x"
    and "a = [] \<or> last a = LF" and "LF \<notin> set l"
    and "process_lines (butlast (split LF a)) = (pre, False)"
    and "trim l = js ''data: '' @ payload" and "JSON_parse payload = Some parsed"
    and "opt (opt (choice0 parsed) (member ''delta'')) (member ''content'') = Some (JString s)"
    and "s \<noteq> []"
    and "truthy_opt (opt (choice0 parsed) (member ''finish_reason''))"
  shows "process_line l = ([\<lparr>content = JString s, done_flag = False\<rparr>, terminal], True) \<and>
    chunks reads = pre @ [\<lparr>content = JString s, done_flag = False\<rparr>, terminal]"
proof -
  have pl: "process_line l = ([\<lparr>content = JString s, done_flag = False\<rparr>, terminal], True)"
    using assms(5-9) by (rule process_line_content_finish)
  have "frames (l @ LF # x) = [\<lparr>content = JString s, done_flag = False\<rparr>, terminal]"
    using frames_line [OF assms(3), of x] by (simp add: pl)
  then have "frames (a @ l @ LF # x) = pre @ [\<lparr>content = JString s, done_flag = False\<rparr>, terminal]"
    using frames_prefix [OF assms(2), of "l @ LF # x"] by (simp add: assms(4))
  then show ?thesis by (simp add: pl chunks_frames assms(1))
qed

text \<open>The line with content "!" and finish reason "stop", after the "Hi" line and before
  a sentinel that is never read.\<close>

theorem content_and_finish_reason_witness:
  "chunks stop_then_done_reads =
     [hi_chunk, \<lparr>content = JString (js ''!''), done_flag = False\<rparr>, terminal]"
proof -
  let ?parsed = "JObject [(js ''choices'', JArray [JObject
      [(js ''delta'', JObject [(js ''content'', JString (js ''!''))]),
       (js ''finish_reason'', JString (js ''stop''))]])]"
  have 1: "stream_text stop_then_done_reads =
      (js hi_line @ [LF]) @ js stop_line @ LF # (LF # js ''data: [DONE]'' @ [LF, LF])"
    by (simp add: eval_defs)
  have 2: "js hi_line @ [LF] = [] \<or> last (js hi_line @ [LF]) = LF" by simp
  have 3: "LF \<notin> set (js stop_line)" by (simp add: eval_defs)
  have 5: "trim (js stop_line) = js ''data: '' @ drop 6 (js stop_line)" by (simp add: eval_defs)
  have 6: "JSON_parse (drop 6 (js stop_line)) = Some ?parsed" by (simp add: eval_defs)
  have 7: "opt (opt (choice0 ?parsed) (member ''delta'')) (member ''content'') =
      Some (JString (js ''!''))"
    by (simp add: eval_defs)
  have 8: "js ''!'' \<noteq> []" by (simp add: js_def)
  have 9: "truthy_opt (opt (choice0 ?parsed) (member ''finish_reason''))"
    by (simp add: eval_defs)
  from content_and_finish_reason [OF 1 2 3 hi_line_chunks 5 6 7 8 9] show ?thesis by simp
qed

section \<open>The sentinel as the last frame\<close>

lemma trim_done_line:
  assumes "\<forall>c\<in>set w. is_js_space c"
  shows "trim (js ''data: [DONE]'' @ w) = js ''data: [DONE]''"
proof -
  have d: "dropWhile is_js_space (js ''data: [DONE]'' @ w) = js ''data: [DONE]'' @ w"
    by (simp add: js_def is_js_space_def)
  have "dropWhile is_js_space (rev w @ ys) = dropWhile is_js_space ys" for ys
    using assms by (intro dropWhile_append2) auto
  then have r: "dropWhile is_js_space (rev w @ rev (js ''data: [DONE]'')) =
      rev (js ''data: [DONE]'')"
    by (simp add: js_def is_js_space_def)
  show ?thesis
    unfolding trim_def d by (simp only: rev_append r rev_rev_ident)
qed

lemma done_line_no_LF: "LF \<notin> set (js ''data: [DONE]'')"
  by (simp add: js_def LF_def)

lemma process_data_DONE: "process_data (js ''[DONE]'') = ([terminal], True)"
  by (simp add: process_data_def)

lemma js_done_line: "js ''data: [DONE]'' = js ''data: '' @ js ''[DONE]''"
  by (simp add: js_def)

lemma frames_done_line:
  assumes "\<forall>c\<in>set w. is_js_space c"
  shows "frames (js ''data: [DONE]'' @ w) = [terminal]"
proof (cases "LF \<in> set w")
  case True
  then obtain w1 w2 where w: "w = w1 @ LF # w2" and n: "LF \<notin> set w1"
    by (auto dest: split_list_first)
  have sp: "\<forall>c\<in>set w1. is_js_space c" using assms w by simp
  have nl: "LF \<notin> set (js ''data: [DONE]'' @ w1)" using n done_line_no_LF by simp
  have "trim (js ''data: [DONE]'' @ w1) = js ''data: '' @ js ''[DONE]''"
    using trim_done_line [OF sp] js_done_line by simp
  then have "process_line (js ''data: [DONE]'' @ w1) = ([terminal], True)"
    by (simp add: process_line_data process_data_DONE)
  then show ?thesis
    using frames_line [OF nl, of w2] by (simp add: w)
next
  case False
  then have nl: "LF \<notin> set (js ''data: [DONE]'' @ w)" using done_line_no_LF by simp
  have t: "trim (js ''data: [DONE]'' @ w) = js ''data: '' @ js ''[DONE]''"
    using trim_done_line [OF assms] js_done_line by simp
  have "remaining (js ''data: [DONE]'' @ w) = [terminal]"
    unfolding remaining_def t
    by (simp add: startsWith_def slice_def js_data_prefix_length)
  then show ?thesis using frames_rest [OF nl] by simp
qed

text \<open>
  C5. When the last frame of the text is \<open>data: [DONE]\<close>, followed by nothing, by a
  newline or by any white space, the chunk sequence ends in the terminal chunk and
  no chunk before it is a terminal one. The case with no newline is the sentinel
  left in the buffer at the end of the data.
\<close>

theorem done_frame_is_last_chunk:
  assumes "stream_text reads = p @ js ''data: [DONE]'' @ w"
    and "p = [] \<or> last p = LF"
    and "\<forall>c\<in>set w. is_js_space c"
  shows "\<exists>pre. chunks reads = pre @ [terminal] \<and> (\<forall>c\<in>set pre. \<not> done_flag c)"
proof -
  obtain cs ret where pl: "process_lines (butlast (split LF p)) = (cs, ret)"
    by (cases "process_lines (butlast (split LF p))") auto
  note sh = process_lines_shape [OF pl]
  have fr: "frames (p @ js ''data: [DONE]'' @ w) = (if ret then cs else cs @ [terminal])"
    using frames_prefix [OF assms(2), of "js ''data: [DONE]'' @ w"]
    by (simp add: pl frames_done_line [OF assms(3)])
  show ?thesis
  proof (cases ret)
    case True
    with sh fr show ?thesis
      by (auto simp: chunks_frames assms(1) live_not_done)
  next
    case False
    with sh fr show ?thesis
      by (auto simp: chunks_frames assms(1) live_not_done)
  qed
qed

text \<open>The sentinel with no newline after it, and the sentinel followed by a newline.\<close>

theorem done_frame_is_last_chunk_witness:
  "chunks dangling_done_reads = [hi_chunk] @ [terminal] \<and>
   chunks clean_reads = [hi_chunk] @ [terminal] \<and>
   (\<exists>pre. chunks dangling_done_reads = pre @ [terminal] \<and> (\<forall>c\<in>set pre. \<not> done_flag c)) \<and>
   (\<exists>pre. chunks clean_reads = pre @ [terminal] \<and> (\<forall>c\<in>set pre. \<not> done_flag c))"
proof -
  have 1: "stream_text dangling_done_reads = (js hi_line @ [LF]) @ js ''data: [DONE]'' @ []"
    by (simp add: eval_defs)
  have 2: "stream_text clean_reads = (js hi_line @ [LF]) @ js ''data: [DONE]'' @ [LF]"
    by (simp add: eval_defs)
  have 3: "js hi_line @ [LF] = [] \<or> last (js hi_line @ [LF]) = LF" by simp
  have 4: "\<forall>c\<in>set []. is_js_space c" by simp
  have 5: "\<forall>c\<in>set [LF]. is_js_space c" by (simp add: eval_defs)
  have v1: "chunks dangling_done_reads = [hi_chunk] @ [terminal]" by (simp add: eval_defs)
  have v2: "chunks clean_reads = [hi_chunk] @ [terminal]" by (simp add: eval_defs)
  from done_frame_is_last_chunk [OF 1 3 4] done_frame_is_last_chunk [OF 2 3 5] v1 v2
  show ?thesis by blast
qed

section \<open>At most one terminal chunk\<close>

lemma shaped_Nil: "shaped []"
  by (simp add: shaped_def)

lemma shaped_prefix:
  assumes "shaped (xs @ ys)"
  shows "shaped xs"
proof -
  from assms obtain pre where
    c: "xs @ ys = pre \<or> xs @ ys = pre @ [terminal]" and l: "\<forall>c\<in>set pre. live c"
    by (auto simp: shaped_def)
  show ?thesis
  proof (cases "ys = []")
    case True
    with assms show ?thesis by simp
  next
    case False
    have "set xs \<subseteq> set pre"
    proof (cases "xs @ ys = pre")
      case True
      then show ?thesis by auto
    next
      case False
      with c have "xs @ ys = pre @ [terminal]" by simp
      then have "butlast (xs @ ys) = pre" by simp
      with \<open>ys \<noteq> []\<close> have "xs @ butlast ys = pre" by (simp add: butlast_append)
      then show ?thesis by auto
    qed
    with l show ?thesis by (auto simp: shaped_def)
  qed
qed

lemma shaped_live_append:
  assumes "\<forall>c\<in>set xs. live c" and "shaped ys"
  shows "shaped (xs @ ys)"
proof -
  from assms(2) obtain pre where
    c: "ys = pre \<or> ys = pre @ [terminal]" and l: "\<forall>c\<in>set pre. live c"
    by (auto simp: shaped_def)
  from c have "xs @ ys = xs @ pre \<or> xs @ ys = (xs @ pre) @ [terminal]" by auto
  moreover have "\<forall>c\<in>set (xs @ pre). live c" using assms(1) l by auto
  ultimately show ?thesis unfolding shaped_def by blast
qed

lemma shaped_terminated:
  "\<forall>c\<in>set pre. live c \<Longrightarrow> shaped (pre @ [terminal])"
  unfolding shaped_def by blast

lemma process_lines_shaped: "shaped (fst (process_lines ls))"
proof -
  obtain cs ret where p: "process_lines ls = (cs, ret)" by (cases "process_lines ls") auto
  from process_lines_shape [OF p] show ?thesis
    by (cases ret) (auto simp: p shaped_def)
qed

lemma remaining_shaped: "shaped (remaining b)"
  using remaining_cases [of b] shaped_terminated [of "[]"] by (auto simp: shaped_Nil)

lemma read_loop_shaped: "shaped (yields (fst (read_loop d b rs)))"
proof (induction rs arbitrary: d b)
  case Nil
  then show ?case by (simp add: remaining_shaped)
next
  case (Cons r rs)
  show ?case
  proof (cases r)
    case (Fail e)
    then show ?thesis by (simp add: shaped_Nil)
  next
    case (Data v)
    obtain d' s where dv: "decode d v = (d', s)" by (cases "decode d v") auto
    let ?lines = "split LF (b @ s)"
    obtain cs ret where pl: "process_lines (butlast ?lines) = (cs, ret)"
      by (cases "process_lines (butlast ?lines)") auto
    obtain evs out where rl: "read_loop d' (last ?lines) rs = (evs, out)"
      by (cases "read_loop d' (last ?lines) rs") auto
    have sh: "shaped (yields evs)" using Cons.IH [of d' "last ?lines"] by (simp add: rl)
    show ?thesis
    proof (cases ret)
      case True
      then show ?thesis
        using process_lines_shaped [of "butlast ?lines"] by (simp add: Data dv pl)
    next
      case False
      with process_lines_shape [OF pl] have "\<forall>c\<in>set cs. live c" by simp
      from shaped_live_append [OF this sh] False show ?thesis
        by (simp add: Data dv pl rl)
    qed
  qed
qed

lemma suspend_prefix: "suspend n evs = Some pre \<Longrightarrow> \<exists>suf. evs = pre @ suf"
  by (induction n evs arbitrary: pre rule: suspend.induct)
     (auto split: if_splits option.splits)

lemma parseSSEStream_shaped: "shaped (yields (fst (parseSSEStream r c)))"
proof (cases "c = AbandonAfter 0 \<or> body r = None")
  case True
  then show ?thesis by (auto simp: parseSSEStream_def shaped_Nil)
next
  case False
  then obtain rs where b: "body r = Some rs" and c0: "c \<noteq> AbandonAfter 0" by auto
  let ?block = "read_loop utf8_init [] rs"
  have full: "shaped (yields (fst ?block))" by (rule read_loop_shaped)
  have "shaped (yields (fst (try_finally ?block c [ReleaseLock])))"
  proof (cases c)
    case Exhaust
    then show ?thesis using full by (simp add: try_finally_def)
  next
    case (AbandonAfter n)
    show ?thesis
    proof (cases "suspend n (fst ?block)")
      case None
      then show ?thesis using full by (simp add: try_finally_def AbandonAfter)
    next
      case (Some pre)
      then obtain suf where "fst ?block = pre @ suf" using suspend_prefix by blast
      with full have "shaped (yields pre)" using shaped_prefix [of "yields pre" "yields suf"]
        by simp
      then show ?thesis by (simp add: try_finally_def AbandonAfter Some)
    qed
  qed
  then show ?thesis
    using b c0 by (auto simp: parseSSEStream_def split: prod.splits)
qed

lemma truthy_not_empty_string: "truthy v \<Longrightarrow> v \<noteq> JString []"
  by auto

lemma shaped_done_index:
  assumes "shaped cs" and "i < length cs" and "done_flag (cs ! i)"
  shows "Suc i = length cs \<and> cs ! i = terminal"
proof -
  from assms(1) obtain pre where
    c: "cs = pre \<or> cs = pre @ [terminal]" and l: "\<forall>c\<in>set pre. live c"
    by (auto simp: shaped_def)
  have "\<not> i < length pre"
  proof
    assume "i < length pre"
    then have "cs ! i = pre ! i" using c by (auto simp: nth_append)
    with \<open>i < length pre\<close> l have "live (cs ! i)" by simp
    with assms(3) show False by (simp add: live_def)
  qed
  with c assms(2) show ?thesis by (auto simp: nth_append)
qed

lemma shaped_filter_done:
  assumes "shaped cs"
  shows "length (filter done_flag cs) \<le> 1"
proof -
  from assms obtain pre where
    c: "cs = pre \<or> cs = pre @ [terminal]" and l: "\<forall>c\<in>set pre. live c"
    by (auto simp: shaped_def)
  have "filter done_flag pre = []" using l by (auto simp: filter_empty_conv live_def)
  with c show ?thesis by auto
qed

lemma shaped_live:
  assumes "shaped cs" and "x \<in> set cs" and "\<not> done_flag x"
  shows "truthy (content x)"
proof -
  from assms(1) obtain pre where
    c: "cs = pre \<or> cs = pre @ [terminal]" and l: "\<forall>c\<in>set pre. live c"
    by (auto simp: shaped_def)
  from c assms(2,3) have "x \<in> set pre" by (auto simp: terminal_done)
  with l show ?thesis by (simp add: live_def)
qed

text \<open>
  C10, as the code has it. For every response and every consumer, the chunks yielded
  contain at most one chunk with \<open>done = true\<close>; that chunk is the last one and is the
  terminal chunk; and every chunk with \<open>done = false\<close> has a truthy content, hence a
  non-empty string when it is a string. (The content is whatever value
  \<open>delta.content\<close> held; the code does not check that it is a string.)
\<close>

theorem chunk_sequence_shape:
  "length (filter done_flag (yields (fst (parseSSEStream r c)))) \<le> 1 \<and>
   (\<forall>i<length (yields (fst (parseSSEStream r c))).
      done_flag (yields (fst (parseSSEStream r c)) ! i) \<longrightarrow>
        Suc i = length (yields (fst (parseSSEStream r c))) \<and>
        yields (fst (parseSSEStream r c)) ! i = terminal) \<and>
   (\<forall>x\<in>set (yields (fst (parseSSEStream r c))).
      \<not> done_flag x \<longrightarrow> truthy (content x) \<and> content x \<noteq> JString [])"
  using shaped_filter_done [OF parseSSEStream_shaped [of r c]]
    shaped_done_index [OF parseSSEStream_shaped [of r c]]
    shaped_live [OF parseSSEStream_shaped [of r c]]
  by (auto dest: truthy_not_empty_string)

text \<open>The "Hi" line and the sentinel.\<close>

theorem chunk_sequence_shape_witness:
  "yields (fst (parseSSEStream (sse_response clean_reads) Exhaust)) = [hi_chunk, terminal] \<and>
   length (filter done_flag (yields (fst (parseSSEStream (sse_response clean_reads) Exhaust)))) \<le> 1 \<and>
   truthy (content hi_chunk) \<and> content hi_chunk \<noteq> JString []"
proof -
  have v: "yields (fst (parseSSEStream (sse_response clean_reads) Exhaust)) = [hi_chunk, terminal]"
    by (simp add: eval_defs)
  have h: "\<not> done_flag hi_chunk" by (simp add: hi_chunk_def)
  from chunk_sequence_shape [of "sse_response clean_reads" Exhaust] v h show ?thesis
    by simp
qed

text \<open>A content that is a number: the chunk has \<open>done = false\<close> and a content that is not
  a string.\<close>

theorem non_string_content_counterexample:
  "chunks numeric_reads = [\<lparr>content = JNumber 5 0, done_flag = False\<rparr>] \<and>
   \<not> is_string (JNumber 5 0)"
  by (simp add: eval_defs)

section \<open>A finish reason ends the sequence\<close>

lemma process_data_finish:
  assumes "JSON_parse payload = Some parsed"
    and "truthy_opt (opt (choice0 parsed) (member ''finish_reason''))"
  shows "snd (process_data payload)"
proof -
  have "payload \<noteq> js ''[DONE]''" using assms(1) JSON_parse_DONE by auto
  then show ?thesis
    using assms by (simp add: process_data_def Let_def)
qed

text \<open>
  C4, as the code has it. The two conditions are tested independently, but the first
  one that holds ends the sequence: when the decoder reaches a line with a truthy
  \<open>finish_reason\<close>, the chunks are those of the lines before it and of that line,
  whatever follows in the stream (a later \<open>data: [DONE]\<close> included), and exactly one
  of them is terminal.
\<close>

theorem finish_reason_ends_sequence:
  assumes "stream_text reads = a @ l @ LF # x"
    and "a = [] \<or> last a = LF" and "LF \<notin> set l"
    and "process_lines (butlast (split LF a)) = (pre, False)"
    and "trim l = js ''data: '' @ payload" and "JSON_parse payload = Some parsed"
    and "truthy_opt (opt (choice0 parsed) (member ''finish_reason''))"
  shows "chunks reads = pre @ fst (process_line l) \<and>
    last (chunks reads) = terminal \<and>
    length (filter done_flag (chunks reads)) = 1"
proof -
  obtain cs ret where pl: "process_line l = (cs, ret)" by (cases "process_line l") auto
  have "snd (process_line l)"
    using process_data_finish [OF assms(6,7)] by (simp add: process_line_data [OF assms(5)])
  with pl have ret: "ret" by simp
  from process_line_shape [OF pl] ret obtain mid where
    cs: "cs = mid @ [terminal]" and mid: "\<forall>c\<in>set mid. live c" by auto
  from process_lines_shape [OF assms(4)] have pre: "\<forall>c\<in>set pre. live c" by simp
  have "frames (l @ LF # x) = cs"
    using frames_line [OF assms(3), of x] by (simp add: pl ret)
  then have "frames (a @ l @ LF # x) = pre @ cs"
    using frames_prefix [OF assms(2), of "l @ LF # x"] by (simp add: assms(4))
  then have c: "chunks reads = pre @ mid @ [terminal]"
    by (simp add: chunks_frames assms(1) cs)
  have "filter done_flag (pre @ mid) = []"
    using pre mid by (auto simp: filter_empty_conv live_def)
  then have "filter done_flag (pre @ mid @ [terminal]) = [terminal]"
    by (simp add: terminal_done)
  with c show ?thesis by (simp add: pl cs)
qed

text \<open>A finish reason followed later by the sentinel: one terminal chunk.\<close>

theorem finish_reason_ends_sequence_witness:
  "chunks stop_then_done_reads =
     [hi_chunk, \<lparr>content = JString (js ''!''), done_flag = False\<rparr>, terminal] \<and>
   last (chunks stop_then_done_reads) = terminal \<and>
   length (filter done_flag (chunks stop_then_done_reads)) = 1"
proof -
  let ?parsed = "JObject [(js ''choices'', JArray [JObject
      [(js ''delta'', JObject [(js ''content'', JString (js ''!''))]),
       (js ''finish_reason'', JString (js ''stop''))]])]"
  have 1: "stream_text stop_then_done_reads =
      (js hi_line @ [LF]) @ js stop_line @ LF # (LF # js ''data: [DONE]'' @ [LF, LF])"
    by (simp add: eval_defs)
  have 2: "js hi_line @ [LF] = [] \<or> last (js hi_line @ [LF]) = LF" by simp
  have 3: "LF \<notin> set (js stop_line)" by (simp add: eval_defs)
  have 5: "trim (js stop_line) = js ''data: '' @ drop 6 (js stop_line)" by (simp add: eval_defs)
  have 6: "JSON_parse (drop 6 (js stop_line)) = Some ?parsed" by (simp add: eval_defs)
  have 9: "truthy_opt (opt (choice0 ?parsed) (member ''finish_reason''))"
    by (simp add: eval_defs)
  have v: "fst (process_line (js stop_line)) =
      [\<lparr>content = JString (js ''!''), done_flag = False\<rparr>, terminal]"
    by (simp add: eval_defs)
  from finish_reason_ends_sequence [OF 1 2 3 hi_line_chunks 5 6 9] show ?thesis
    by (simp add: v terminal_done hi_chunk_def)
qed

text \<open>
  Against C4: no stream makes the decoder yield two terminal chunks. The generator
  returns right after the first one.
\<close>

theorem no_second_terminal_chunk:
  "\<not> (\<exists>reads i j. i < j \<and> j < length (chunks reads) \<and>
        done_flag (chunks reads ! i) \<and> done_flag (chunks reads ! j))"
proof
  assume "\<exists>reads i j. i < j \<and> j < length (chunks reads) \<and>
        done_flag (chunks reads ! i) \<and> done_flag (chunks reads ! j)"
  then obtain reads i j where ij: "i < j" "j < length (chunks reads)"
    and d: "done_flag (chunks reads ! i)" by blast
  have sh: "shaped (chunks reads)"
    unfolding chunks_def by (rule parseSSEStream_shaped)
  from ij have "i < length (chunks reads)" by simp
  from shaped_done_index [OF sh this d] ij show False by simp
qed

section \<open>Releasing the reader\<close>





end
